theory Spec2Isabelle
  imports Main "HOL-Library.Log_Nat"
begin

section \<open>JavaScript Numbers\<close>

text \<open>
  A finite JavaScript Number is an IEEE 754 binary64 value, hence a rational number.
  The arithmetic operators \<^verbatim>\<open>*\<close> and \<^verbatim>\<open>+\<close> of the language compute the exact
  result and round it to the nearest binary64 value, ties going to the even
  significand. \<open>fl\<close> is that rounding: the significand has 53 bits, so a value of
  binade \<open>e\<close> (that is, \<open>2^e \<le> |x| < 2^(e+1)\<close>) lies on a grid of spacing
  \<open>2^(e-52)\<close>, and below \<open>2^-1022\<close> the grid of the subnormal numbers has spacing
  \<open>2^-1074\<close>. The overflow to \<^verbatim>\<open>Infinity\<close> above \<open>2^1024\<close> is left out: every operand
  of the program is smaller than \<open>2^5\<close>. For a positive \<open>x\<close>, \<open>binade x\<close> is
  computed from the number of bits of \<open>floor x\<close>, or of \<open>ceiling (1 / x) - 1\<close> when
  \<open>x < 1\<close>.
\<close>

definition pow2 :: "int \<Rightarrow> rat" where
  "pow2 e = (if 0 \<le> e then 2 ^ nat e else 1 / 2 ^ nat (- e))"

definition binade :: "rat \<Rightarrow> int" where
  "binade x = (if 1 \<le> x then bitlen \<lfloor>x\<rfloor> - 1 else - bitlen (\<lceil>1 / x\<rceil> - 1))"

definition ulp :: "rat \<Rightarrow> rat" where
  "ulp x = pow2 (max (binade \<bar>x\<bar>) (- 1022) - 52)"

definition round_half_even :: "rat \<Rightarrow> int" where
  "round_half_even q =
     (let f = \<lfloor>q\<rfloor> in
      if q - of_int f < 1 / 2 then f
      else if 1 / 2 < q - of_int f then f + 1
      else if even f then f else f + 1)"

definition fl :: "rat \<Rightarrow> rat" where
  "fl x = (if x = 0 then 0 else of_int (round_half_even (x / ulp x)) * ulp x)"

text \<open>
  The rounding on Numbers whose binary64 value is well known: \<^verbatim>\<open>0.1\<close> and the sum
  \<^verbatim>\<open>0.1 + 0.2\<close> (which is \<^verbatim>\<open>0.30000000000000004\<close>).
\<close>

lemma fl_tenth: "fl (1 / 10) = 3602879701896397 / 2 ^ 55"
  by code_simp

lemma fl_tenth_plus_fifth: "fl (fl (1 / 10) + fl (2 / 10)) = 1351079888211149 / 2 ^ 52"
  by code_simp

subsection \<open>Rounding is monotone\<close>

text \<open>The exponent of the grid on which \<open>x\<close> is rounded.\<close>

definition expo :: "rat \<Rightarrow> int" where
  "expo x = max (binade \<bar>x\<bar>) (- 1022)"

lemma pow2_powi: "pow2 e = 2 powi e"
  by (simp add: pow2_def power_int_def inverse_eq_divide power_one_over)

lemma pow2_pos: "0 < pow2 e"
  by (simp add: pow2_powi)

lemma pow2_add: "pow2 (a + b) = pow2 a * pow2 b"
  by (simp add: pow2_powi power_int_add)

lemma pow2_mono: "a \<le> b \<Longrightarrow> pow2 a \<le> pow2 b"
  by (simp add: pow2_powi power_int_increasing)

lemma pow2_less_imp: "pow2 a < pow2 b \<Longrightarrow> a < b"
  using pow2_mono [of b a] by (cases "a < b") simp_all

lemma binade_bounds:
  assumes "0 < x"
  shows "pow2 (binade x) \<le> x" and "x < pow2 (binade x + 1)"
proof -
  have "pow2 (binade x) \<le> x \<and> x < pow2 (binade x + 1)"
  proof (cases "1 \<le> x")
    case True
    define n where "n = \<lfloor>x\<rfloor>"
    have n: "0 < n" using True by (simp add: n_def)
    have b: "2 ^ nat (bitlen n - 1) \<le> n" "n < 2 ^ nat (bitlen n)"
      using bitlen_bounds [OF n] by simp_all
    have bl: "1 \<le> bitlen n" using n by (simp add: bitlen_def floorlog_def)
    have e: "binade x = bitlen n - 1" using True by (simp add: binade_def n_def)
    have "pow2 (binade x) = of_int (2 ^ nat (bitlen n - 1))"
      using bl by (simp add: e pow2_def)
    also have "\<dots> \<le> of_int n" using b(1) by (simp only: of_int_le_iff)
    also have "\<dots> \<le> x" by (simp add: n_def)
    finally have lo: "pow2 (binade x) \<le> x" .
    have "n + 1 \<le> 2 ^ nat (bitlen n)" using b(2) by simp
    then have "(of_int (n + 1) :: rat) \<le> of_int (2 ^ nat (bitlen n))"
      by (simp only: of_int_le_iff)
    moreover have "x < of_int (n + 1)" unfolding n_def by linarith
    moreover have "pow2 (binade x + 1) = of_int (2 ^ nat (bitlen n))"
      using bl by (simp add: e pow2_def)
    ultimately have "x < pow2 (binade x + 1)" by simp
    with lo show ?thesis by simp
  next
    case False
    define m where "m = \<lceil>1 / x\<rceil> - 1"
    define k where "k = bitlen m"
    have y: "1 < 1 / x" using False assms by simp
    have m: "0 < m" using y by (simp add: m_def less_ceiling_iff)
    have b: "2 ^ nat (k - 1) \<le> m" "m < 2 ^ nat k"
      using bitlen_bounds [OF m] by (simp_all add: k_def)
    have k1: "1 \<le> k" using m by (simp add: k_def bitlen_def floorlog_def)
    have e: "binade x = - k" using False by (simp add: binade_def m_def k_def)
    have "1 / x \<le> of_int (m + 1)" unfolding m_def by linarith
    also have "\<dots> \<le> of_int (2 ^ nat k)" using b(2) by (simp only: of_int_le_iff)
    finally have "1 / x \<le> 2 ^ nat k" by simp
    then have "1 / 2 ^ nat k \<le> x" using assms by (simp add: field_simps)
    moreover have "pow2 (binade x) = 1 / 2 ^ nat k" using k1 by (simp add: e pow2_def)
    ultimately have lo: "pow2 (binade x) \<le> x" by simp
    have "(of_int (2 ^ nat (k - 1)) :: rat) \<le> of_int m" using b(1) by (simp only: of_int_le_iff)
    also have "of_int m < 1 / x" unfolding m_def by linarith
    finally have "2 ^ nat (k - 1) < 1 / x" by simp
    then have "x < 1 / 2 ^ nat (k - 1)" using assms by (simp add: field_simps)
    moreover have "pow2 (binade x + 1) = 1 / 2 ^ nat (k - 1)"
      using k1 by (auto simp add: e pow2_def nat_diff_distrib)
    ultimately show ?thesis using lo by simp
  qed
  then show "pow2 (binade x) \<le> x" and "x < pow2 (binade x + 1)" by simp_all
qed

lemma rhe_ge_floor: "\<lfloor>q\<rfloor> \<le> round_half_even q"
  by (simp add: round_half_even_def Let_def)

lemma rhe_le_floor1: "round_half_even q \<le> \<lfloor>q\<rfloor> + 1"
  by (simp add: round_half_even_def Let_def)

lemma rhe_of_int: "round_half_even (of_int n) = n"
  by (simp add: round_half_even_def Let_def)

lemma rhe_ge:
  assumes "of_int n \<le> q"
  shows "n \<le> round_half_even q"
proof -
  have "n \<le> \<lfloor>q\<rfloor>" using assms by (simp add: le_floor_iff)
  with rhe_ge_floor [of q] show ?thesis by simp
qed

lemma rhe_le:
  assumes "q \<le> of_int m"
  shows "round_half_even q \<le> m"
proof (cases "q = of_int m")
  case True
  then show ?thesis by (simp add: rhe_of_int)
next
  case False
  with assms have "q < of_int m" by simp
  then have "\<lfloor>q\<rfloor> < m" by (simp add: floor_less_iff)
  with rhe_le_floor1 [of q] show ?thesis by simp
qed

lemma rhe_mono:
  assumes "q \<le> q'"
  shows "round_half_even q \<le> round_half_even q'"
proof (cases "\<lfloor>q\<rfloor> = \<lfloor>q'\<rfloor>")
  case True
  with assms show ?thesis
    by (auto simp add: round_half_even_def Let_def)
next
  case False
  moreover have "\<lfloor>q\<rfloor> \<le> \<lfloor>q'\<rfloor>" using assms by (rule floor_mono)
  ultimately have "\<lfloor>q\<rfloor> + 1 \<le> \<lfloor>q'\<rfloor>" by simp
  with rhe_le_floor1 [of q] rhe_ge_floor [of q'] show ?thesis by simp
qed

lemma ulp_expo: "ulp x = pow2 (expo x - 52)"
  by (simp add: ulp_def expo_def)

lemma ulp_pos: "0 < ulp x"
  by (simp add: ulp_def pow2_pos)

lemma fl_nonneg:
  assumes "0 \<le> x"
  shows "0 \<le> fl x"
proof (cases "x = 0")
  case True
  then show ?thesis by (simp add: fl_def)
next
  case False
  have "(of_int 0 :: rat) \<le> x / ulp x" using assms ulp_pos [of x] by simp
  then have "0 \<le> round_half_even (x / ulp x)" by (rule rhe_ge)
  then show ?thesis using False ulp_pos [of x] by (simp add: fl_def)
qed

lemma fl_upper:
  assumes "0 < x"
  shows "fl x \<le> pow2 (expo x + 1)"
proof -
  have "x < pow2 (binade x + 1)" using assms by (rule binade_bounds)
  also have "\<dots> \<le> pow2 (expo x + 1)"
    using assms by (intro pow2_mono) (simp add: expo_def)
  also have "\<dots> = pow2 53 * ulp x"
    using pow2_add [of 53 "expo x - 52"] by (simp add: ulp_expo algebra_simps)
  finally have "x / ulp x \<le> pow2 53" using ulp_pos [of x] by (simp add: field_simps)
  also have "pow2 53 = of_int (2 ^ 53)" by (simp add: pow2_def)
  finally have "round_half_even (x / ulp x) \<le> 2 ^ 53" by (rule rhe_le)
  then have "(of_int (round_half_even (x / ulp x)) :: rat) \<le> of_int (2 ^ 53)"
    by (simp only: of_int_le_iff)
  then have "of_int (round_half_even (x / ulp x)) * ulp x \<le> of_int (2 ^ 53) * ulp x"
    using ulp_pos [of x] by (simp only: mult_le_cancel_right) simp
  moreover have "of_int (2 ^ 53) * ulp x = pow2 (expo x + 1)"
    using pow2_add [of 53 "expo x - 52"] by (simp add: ulp_expo algebra_simps pow2_def)
  ultimately show ?thesis using assms by (simp add: fl_def)
qed

lemma fl_lower:
  assumes "0 < x" and "- 1022 \<le> binade x"
  shows "pow2 (expo x) \<le> fl x"
proof -
  have e: "expo x = binade x" using assms by (simp add: expo_def)
  have "pow2 52 * ulp x = pow2 (expo x)"
    using pow2_add [of 52 "expo x - 52"] by (simp add: ulp_expo)
  also have "\<dots> \<le> x" using binade_bounds(1) [OF assms(1)] by (simp add: e)
  finally have "pow2 52 \<le> x / ulp x" using ulp_pos [of x] by (simp add: field_simps)
  moreover have "pow2 52 = of_int (2 ^ 52)" by (simp add: pow2_def)
  ultimately have "of_int (2 ^ 52) \<le> x / ulp x" by simp
  then have "2 ^ 52 \<le> round_half_even (x / ulp x)" by (rule rhe_ge)
  then have "(of_int (2 ^ 52) :: rat) \<le> of_int (round_half_even (x / ulp x))"
    by (simp only: of_int_le_iff)
  then have "of_int (2 ^ 52) * ulp x \<le> of_int (round_half_even (x / ulp x)) * ulp x"
    using ulp_pos [of x] by (simp only: mult_le_cancel_right) simp
  moreover have "of_int (2 ^ 52) * ulp x = pow2 (expo x)"
    using pow2_add [of 52 "expo x - 52"] by (simp add: ulp_expo pow2_def)
  ultimately show ?thesis using assms by (simp add: fl_def)
qed

lemma binade_mono:
  assumes "0 < x" and "x \<le> y"
  shows "binade x \<le> binade y"
proof -
  have "pow2 (binade x) \<le> x" using assms(1) by (rule binade_bounds)
  also note assms(2)
  also have "y < pow2 (binade y + 1)" using assms by (intro binade_bounds) simp
  finally have "binade x < binade y + 1" by (rule pow2_less_imp)
  then show ?thesis by simp
qed

lemma fl_mono:
  assumes "0 \<le> x" and "x \<le> y"
  shows "fl x \<le> fl y"
proof (cases "x = 0")
  case True
  then show ?thesis using assms fl_nonneg [of y] by (simp add: fl_def)
next
  case False
  with assms have x: "0 < x" and y: "0 < y" by simp_all
  have le: "expo x \<le> expo y"
    using binade_mono [OF x assms(2)] x y by (simp add: expo_def)
  show ?thesis
  proof (cases "expo x = expo y")
    case True
    then have u: "ulp x = ulp y" by (simp add: ulp_expo)
    have "x / ulp y \<le> y / ulp y" using assms(2) ulp_pos [of y] by (simp add: divide_right_mono)
    then have "round_half_even (x / ulp y) \<le> round_half_even (y / ulp y)" by (rule rhe_mono)
    then have "(of_int (round_half_even (x / ulp y)) :: rat) \<le> of_int (round_half_even (y / ulp y))"
      by (simp only: of_int_le_iff)
    then have "of_int (round_half_even (x / ulp y)) * ulp y \<le> of_int (round_half_even (y / ulp y)) * ulp y"
      using ulp_pos [of y] by (simp only: mult_le_cancel_right) simp
    then show ?thesis using x y by (simp add: fl_def u)
  next
    case False
    with le have lt: "expo x + 1 \<le> expo y" by simp
    then have "- 1022 \<le> binade y" using y by (simp add: expo_def max_def split: if_splits)
    then have "pow2 (expo y) \<le> fl y" using y by (intro fl_lower)
    moreover have "fl x \<le> pow2 (expo x + 1)" using x by (rule fl_upper)
    moreover have "pow2 (expo x + 1) \<le> pow2 (expo y)" using lt by (rule pow2_mono)
    ultimately show ?thesis by simp
  qed
qed

lemma unit_double_max:
  assumes "0 \<le> r" and "r < 1" and "fl r = r"
  shows "r \<le> 1 - 1 / 2 ^ 53"
proof (cases "r = 0")
  case True
  then show ?thesis by simp
next
  case False
  with assms have r: "0 < r" by simp
  have "pow2 (binade r) \<le> r" using r by (rule binade_bounds)
  also have "r < pow2 0" using assms(2) by (simp add: pow2_def)
  finally have neg: "binade r < 0" by (rule pow2_less_imp)
  show ?thesis
  proof (cases "binade r = - 1")
    case True
    then have u: "ulp r = 1 / 2 ^ 53" using r by (simp add: ulp_def pow2_def)
    define n where "n = round_half_even (r / ulp r)"
    have rn: "r = of_int n * (1 / 2 ^ 53)" using assms(3) False by (simp add: fl_def n_def u)
    then have "of_int n * (1 / 2 ^ 53) < (1::rat)" using assms(2) by simp
    then have "(of_int n :: rat) < of_int (2 ^ 53)" by (simp add: field_simps)
    then have "n < 2 ^ 53" by (simp only: of_int_less_iff)
    then have "n \<le> 2 ^ 53 - 1" by simp
    then have "(of_int n :: rat) \<le> of_int (2 ^ 53 - 1)" by (simp only: of_int_le_iff)
    then have "of_int n * (1 / 2 ^ 53) \<le> (of_int (2 ^ 53 - 1) :: rat) * (1 / 2 ^ 53)"
      by (simp only: mult_le_cancel_right) simp
    then show ?thesis using rn by (simp add: field_simps)
  next
    case False
    with neg have "binade r + 1 \<le> - 1" by simp
    then have "pow2 (binade r + 1) \<le> pow2 (- 1)" by (rule pow2_mono)
    moreover have "r < pow2 (binade r + 1)" using r by (rule binade_bounds)
    ultimately have "r < 1 / 2" by (simp add: pow2_def)
    then show ?thesis by simp
  qed
qed

section \<open>The random sources\<close>

text \<open>
  \<^verbatim>\<open>Math.random()\<close> returns a Number that is at least 0 and less than 1.
\<close>

typedef unit_double = "{r :: rat. 0 \<le> r \<and> r < 1 \<and> fl r = r}"
  morphisms number_of Abs_unit_double
proof
  show "0 \<in> {r :: rat. 0 \<le> r \<and> r < 1 \<and> fl r = r}"
    by (simp add: fl_def)
qed

text \<open>
  The body of \<^verbatim>\<open>randomIntFromInterval\<close> on the value \<open>r\<close> that \<^verbatim>\<open>Math.random()\<close>
  returned: \<^verbatim>\<open>Math.floor(r * (max - min + 1) + min)\<close>, every operator rounding.
\<close>

definition floorScaled :: "rat \<Rightarrow> rat \<Rightarrow> rat \<Rightarrow> int" where
  "floorScaled mn mx r = \<lfloor>fl (fl (r * fl (fl (mx - mn) + 1)) + mn)\<rfloor>"

text \<open>
  An error object carries its \<^verbatim>\<open>stack\<close> text. A JavaScript value is a number, a
  string, a date (milliseconds since the epoch), an object (its properties in
  insertion order) or an array.
\<close>

datatype error = Error (stack: string)

datatype jsval =
    JNum int
  | JStr string
  | JDate int
  | JObj "(string \<times> jsval) list"
  | JArr "jsval list"

text \<open>
  Everything \<^verbatim>\<open>seedDB\<close> takes from outside: the value of the \<open>k\<close>-th call of
  \<^verbatim>\<open>Math.random()\<close>, the value of the \<open>k\<close>-th call into the faker library (by the
  function called), what the constructor call \<^verbatim>\<open>new MongoClient(uri, options)\<close> of
  line 22 does (\<open>None\<close>: it returns the client; \<open>Some e\<close>: it throws \<open>e\<close>, as the
  driver does on a connection string it cannot parse), and what the three awaited
  calls on the client do (\<open>None\<close>: the promise resolves; \<open>Some e\<close>: it rejects
  with \<open>e\<close>).
\<close>

record world =
  Math_random :: "nat \<Rightarrow> unit_double"
  faker_person_firstName :: "nat \<Rightarrow> string"
  faker_person_lastName :: "nat \<Rightarrow> string"
  faker_date_past :: "nat \<Rightarrow> int"
  faker_lorem_word :: "nat \<Rightarrow> string"
  faker_internet_email :: "nat \<Rightarrow> string \<Rightarrow> string \<Rightarrow> string"
  new_MongoClient :: "error option"
  client_connect :: "error option"
  collection_insertMany :: "jsval list \<Rightarrow> error option"
  client_close :: "error option"

record state =
  randoms :: nat
  fakes :: nat

definition start :: state where
  "start = \<lparr>randoms = 0, fakes = 0\<rparr>"

section \<open>myapp.js\<close>

text \<open>
  Lines 6 to 8: \<^verbatim>\<open>randomIntFromInterval\<close> makes one call of \<^verbatim>\<open>Math.random()\<close>.
\<close>

definition randomIntFromInterval :: "world \<Rightarrow> rat \<Rightarrow> rat \<Rightarrow> state \<Rightarrow> int \<times> state" where
  "randomIntFromInterval w mn mx s =
     (floorScaled mn mx (number_of (Math_random w (randoms s))),
      s\<lparr>randoms := randoms s + 1\<rparr>)"

text \<open>Lines 48 to 51: the object literal \<^verbatim>\<open>newEvent\<close>.\<close>

definition newEvent :: "world \<Rightarrow> state \<Rightarrow> jsval \<times> state" where
  "newEvent w s =
     (let timestamp_event = faker_date_past w (fakes s);
          s1 = s\<lparr>fakes := fakes s + 1\<rparr>;
          (weight, s2) = randomIntFromInterval w 14 16 s1
      in (JObj [(''timestamp_event'', JDate timestamp_event), (''weight'', JNum weight)], s2))"

subsection \<open>The two intervals of the program\<close>

lemma number_of_range:
  "0 \<le> number_of r" "number_of r \<le> 1 - 1 / 2 ^ 53"
proof -
  have m: "0 \<le> number_of r \<and> number_of r < 1 \<and> fl (number_of r) = number_of r"
    using number_of [of r] by simp
  then show "0 \<le> number_of r" by simp
  from m show "number_of r \<le> 1 - 1 / 2 ^ 53" by (intro unit_double_max) simp_all
qed

lemma width_1_6: "fl (fl (6 - 1) + 1) = 6"
  by code_simp

lemma width_14_16: "fl (fl (16 - 14) + 1) = 3"
  by code_simp

lemma fl_top_6: "fl ((1 - 1 / 2 ^ 53) * 6) = 6 - 1 / 2 ^ 50"
  by code_simp

lemma fl_top_7: "fl (6 - 1 / 2 ^ 50 + 1) = 7 - 1 / 2 ^ 50"
  by code_simp

lemma fl_top_3: "fl ((1 - 1 / 2 ^ 53) * 3) = 3 - 1 / 2 ^ 51"
  by code_simp

lemma fl_top_17: "fl (3 - 1 / 2 ^ 51 + 14) = 17"
  by code_simp

lemma fl_0: "fl 0 = 0"
  by (simp add: fl_def)

lemma fl_1: "fl 1 = 1"
  by code_simp

lemma fl_14: "fl 14 = 14"
  by code_simp

lemma floorScaled_1_6_eq: "floorScaled 1 6 r = \<lfloor>fl (fl (r * 6) + 1)\<rfloor>"
  unfolding floorScaled_def width_1_6 by (rule refl)

lemma floorScaled_14_16_eq: "floorScaled 14 16 r = \<lfloor>fl (fl (r * 3) + 14)\<rfloor>"
  unfolding floorScaled_def width_14_16 by (rule refl)

lemma floorScaled_1_6:
  assumes "0 \<le> r" and "r \<le> 1 - 1 / 2 ^ 53"
  shows "1 \<le> floorScaled 1 6 r" and "floorScaled 1 6 r \<le> 6"
proof -
  have p0: "0 \<le> r * 6" using assms(1) by simp
  have "fl 0 \<le> fl (r * 6)" using p0 by (intro fl_mono) simp_all
  then have "1 \<le> fl (r * 6) + 1" by (simp add: fl_0)
  then have "fl 1 \<le> fl (fl (r * 6) + 1)" by (intro fl_mono) simp_all
  then have "of_int 1 \<le> fl (fl (r * 6) + 1)" by (simp add: fl_1)
  then have "1 \<le> \<lfloor>fl (fl (r * 6) + 1)\<rfloor>" by (simp only: le_floor_iff)
  then show "1 \<le> floorScaled 1 6 r" by (simp add: floorScaled_1_6_eq)
  have "r * 6 \<le> (1 - 1 / 2 ^ 53) * 6" using assms(2) by simp
  then have "fl (r * 6) \<le> fl ((1 - 1 / 2 ^ 53) * 6)" using p0 by (intro fl_mono)
  then have "fl (r * 6) \<le> 6 - 1 / 2 ^ 50" unfolding fl_top_6 .
  then have "fl (r * 6) + 1 \<le> 6 - 1 / 2 ^ 50 + 1" by (rule add_right_mono)
  moreover have "0 \<le> fl (r * 6) + 1" using fl_nonneg [OF p0] by simp
  ultimately have "fl (fl (r * 6) + 1) \<le> fl (6 - 1 / 2 ^ 50 + 1)" by (intro fl_mono)
  then have "fl (fl (r * 6) + 1) \<le> 7 - 1 / 2 ^ 50" unfolding fl_top_7 .
  then have "fl (fl (r * 6) + 1) < of_int 7" by simp
  then have "\<lfloor>fl (fl (r * 6) + 1)\<rfloor> < 7" by (simp only: floor_less_iff)
  then show "floorScaled 1 6 r \<le> 6" by (simp add: floorScaled_1_6_eq)
qed

lemma floorScaled_14_16:
  assumes "0 \<le> r" and "r \<le> 1 - 1 / 2 ^ 53"
  shows "14 \<le> floorScaled 14 16 r" and "floorScaled 14 16 r \<le> 17"
proof -
  have p0: "0 \<le> r * 3" using assms(1) by simp
  have "fl 0 \<le> fl (r * 3)" using p0 by (intro fl_mono) simp_all
  then have "14 \<le> fl (r * 3) + 14" by (simp add: fl_0)
  then have "fl 14 \<le> fl (fl (r * 3) + 14)" by (intro fl_mono) simp_all
  then have "of_int 14 \<le> fl (fl (r * 3) + 14)" by (simp add: fl_14)
  then have "14 \<le> \<lfloor>fl (fl (r * 3) + 14)\<rfloor>" by (simp only: le_floor_iff)
  then show "14 \<le> floorScaled 14 16 r" by (simp add: floorScaled_14_16_eq)
  have "r * 3 \<le> (1 - 1 / 2 ^ 53) * 3" using assms(2) by simp
  then have "fl (r * 3) \<le> fl ((1 - 1 / 2 ^ 53) * 3)" using p0 by (intro fl_mono)
  then have "fl (r * 3) \<le> 3 - 1 / 2 ^ 51" unfolding fl_top_3 .
  then have "fl (r * 3) + 14 \<le> 3 - 1 / 2 ^ 51 + 14" by (rule add_right_mono)
  moreover have "0 \<le> fl (r * 3) + 14" using fl_nonneg [OF p0] by simp
  ultimately have "fl (fl (r * 3) + 14) \<le> fl (3 - 1 / 2 ^ 51 + 14)" by (intro fl_mono)
  then have "fl (fl (r * 3) + 14) \<le> 17" unfolding fl_top_17 .
  then have "fl (fl (r * 3) + 14) \<le> of_int 17" by simp
  then have "\<lfloor>fl (fl (r * 3) + 14)\<rfloor> \<le> 17" by (simp only: floor_le_iff)
  then show "floorScaled 14 16 r \<le> 17" by (simp add: floorScaled_14_16_eq)
qed

lemma randomIntFromInterval_1_6:
  "1 \<le> fst (randomIntFromInterval w 1 6 s)" "fst (randomIntFromInterval w 1 6 s) \<le> 6"
  using floorScaled_1_6 [OF number_of_range] by (simp_all add: randomIntFromInterval_def)

lemma randomIntFromInterval_14_16:
  "14 \<le> fst (randomIntFromInterval w 14 16 s)" "fst (randomIntFromInterval w 14 16 s) \<le> 17"
  using floorScaled_14_16 [OF number_of_range] by (simp_all add: randomIntFromInterval_def)

subsection \<open>The loops of seedDB\<close>

text \<open>
  Lines 47 to 53. The condition \<^verbatim>\<open>j < randomIntFromInterval(1, 6)\<close> is evaluated
  before every iteration, each time with a new call of \<^verbatim>\<open>Math.random()\<close>.
  \<open>events\<close> is the array \<^verbatim>\<open>newDay.events\<close>, to which the body pushes.
\<close>

function eventLoop :: "world \<Rightarrow> nat \<Rightarrow> jsval list \<Rightarrow> state \<Rightarrow> jsval list \<times> state" where
  "eventLoop w j events s =
     (let (bound, s1) = randomIntFromInterval w 1 6 s in
      if int j < bound then
        (let (e, s2) = newEvent w s1 in eventLoop w (j + 1) (events @ [e]) s2)
      else (events, s1))"
  by pat_completeness auto
termination
proof (relation "measure (\<lambda>(w, j, events, s). 6 - j)")
  show "wf (measure (\<lambda>(w, j, events, s). 6 - j))" by simp
next
  fix w :: world and j :: nat and events :: "jsval list" and s s1 s2 :: state
    and x :: "int \<times> state" and bound :: int and y :: "jsval \<times> state" and e :: jsval
  assume "x = randomIntFromInterval w 1 6 s" and "(bound, s1) = x" and "int j < bound"
  then have "int j < fst (randomIntFromInterval w 1 6 s)" by (metis fst_conv)
  with randomIntFromInterval_1_6(2) [of w s] have "j < 6" by simp
  then show "((w, j + 1, events @ [e], s2), (w, j, events, s)) \<in> measure (\<lambda>(w, j, events, s). 6 - j)"
    by simp
qed

declare eventLoop.simps [simp del]

text \<open>
  Lines 34 to 53: one pass through the body of the outer loop, up to the statement
  that pushes \<^verbatim>\<open>newDay\<close>. The five calls into faker come first, in the order in
  which the source makes them.
\<close>

definition newDay :: "world \<Rightarrow> state \<Rightarrow> jsval \<times> state" where
  "newDay w s =
     (let firstName = faker_person_firstName w (fakes s);
          lastName = faker_person_lastName w (fakes s + 1);
          timestamp_day = faker_date_past w (fakes s + 2);
          cat = faker_lorem_word w (fakes s + 3);
          email = faker_internet_email w (fakes s + 4) firstName lastName;
          (events, s') = eventLoop w 0 [] (s\<lparr>fakes := fakes s + 5\<rparr>)
      in (JObj [(''timestamp_day'', JDate timestamp_day),
                (''cat'', JStr cat),
                (''owner'', JObj [(''email'', JStr email),
                                  (''firstName'', JStr firstName),
                                  (''lastName'', JStr lastName)]),
                (''events'', JArr events)],
          s'))"

text \<open>Lines 31 to 55: the loop \<^verbatim>\<open>for (let i = 0; i < 5000; i++)\<close>.\<close>

function dayLoop :: "world \<Rightarrow> nat \<Rightarrow> jsval list \<Rightarrow> state \<Rightarrow> jsval list \<times> state" where
  "dayLoop w i days s =
     (if i < 5000 then
        (let (d, s') = newDay w s in dayLoop w (i + 1) (days @ [d]) s')
      else (days, s))"
  by pat_completeness auto
termination
  by (relation "measure (\<lambda>(w, i, days, s). 5000 - i)") auto

declare dayLoop.simps [simp del]

definition timeSeriesData :: "world \<Rightarrow> jsval list" where
  "timeSeriesData w = fst (dayLoop w 0 [] start)"

subsection \<open>seedDB\<close>

text \<open>
  What a run of \<^verbatim>\<open>seedDB\<close> does: the calls it awaits on the MongoDB client, in
  order, the lines it writes with \<^verbatim>\<open>console.log\<close>, the array \<^verbatim>\<open>timeSeriesData\<close> as
  the run leaves it (\<open>None\<close> when the run never reaches line 31, which declares
  it), and the error in flight, if any (at the end: the error with which the promise
  of \<^verbatim>\<open>seedDB\<close> rejects).
\<close>

datatype call = Connect | InsertMany "jsval list" | Close

record run =
  calls :: "call list"
  console :: "string list"
  built :: "jsval list option"
  thrown :: "error option"

text \<open>Lines 25 to 58: the \<^verbatim>\<open>try\<close> block.\<close>

definition tryBlock :: "world \<Rightarrow> run" where
  "tryBlock w =
     (case client_connect w of
        Some err \<Rightarrow> \<lparr>calls = [Connect], console = [], built = None, thrown = Some err\<rparr>
      | None \<Rightarrow>
          (case collection_insertMany w (timeSeriesData w) of
             Some err \<Rightarrow>
               \<lparr>calls = [Connect, InsertMany (timeSeriesData w)],
                console = [''Connected correctly to server''],
                built = Some (timeSeriesData w),
                thrown = Some err\<rparr>
           | None \<Rightarrow>
               \<lparr>calls = [Connect, InsertMany (timeSeriesData w)],
                console = [''Connected correctly to server'',
                           ''Database seeded with synthetic data! :)''],
                built = Some (timeSeriesData w),
                thrown = None\<rparr>))"

text \<open>Lines 59 to 61: the \<^verbatim>\<open>catch\<close> block.\<close>

definition catchBlock :: "run \<Rightarrow> run" where
  "catchBlock r =
     (case thrown r of
        Some err \<Rightarrow> r\<lparr>console := console r @ [stack err], thrown := None\<rparr>
      | None \<Rightarrow> r)"

text \<open>
  Lines 61 to 67: the \<^verbatim>\<open>finally\<close> block. It is entered only after line 22 has bound
  \<^verbatim>\<open>client\<close> to the object the constructor returned, so the test \<^verbatim>\<open>if (client)\<close> of
  line 63 succeeds.
\<close>

definition finallyBlock :: "world \<Rightarrow> run \<Rightarrow> run" where
  "finallyBlock w r =
     (case client_close w of
        Some err \<Rightarrow> r\<lparr>calls := calls r @ [Close], thrown := Some err\<rparr>
      | None \<Rightarrow>
          r\<lparr>calls := calls r @ [Close],
            console := console r @ [''MongoDB connection closed'']\<rparr>)"

text \<open>
  Lines 10 to 68. The constructor call of line 22 stands before the \<^verbatim>\<open>try\<close>: when
  it throws, no handler of \<^verbatim>\<open>seedDB\<close> runs, nothing is logged, no call is made on a
  client, and the promise of \<^verbatim>\<open>seedDB\<close> rejects with that error.
\<close>

definition seedDB :: "world \<Rightarrow> run" where
  "seedDB w =
     (case new_MongoClient w of
        Some err \<Rightarrow> \<lparr>calls = [], console = [], built = None, thrown = Some err\<rparr>
      | None \<Rightarrow> finallyBlock w (catchBlock (tryBlock w)))"

subsection \<open>Reading a document\<close>

definition fieldNames :: "jsval \<Rightarrow> string list" where
  "fieldNames d = (case d of JObj fs \<Rightarrow> map fst fs | _ \<Rightarrow> [])"

definition field :: "string \<Rightarrow> jsval \<Rightarrow> jsval option" where
  "field k d = (case d of JObj fs \<Rightarrow> map_of fs k | _ \<Rightarrow> None)"

definition eventsOf :: "jsval \<Rightarrow> jsval list" where
  "eventsOf d = (case field ''events'' d of Some (JArr es) \<Rightarrow> es | _ \<Rightarrow> [])"

subsection \<open>Facts about the loops\<close>

lemma dayLoop_length: "length (fst (dayLoop w i days s)) = length days + (5000 - i)"
proof (induction w i days s rule: dayLoop.induct)
  case (1 w i days s)
  show ?case
  proof (cases "i < 5000")
    case True
    obtain d s' where d: "newDay w s = (d, s')" by (cases "newDay w s")
    have "length (fst (dayLoop w (i + 1) (days @ [d]) s')) = length (days @ [d]) + (5000 - (i + 1))"
      using "1.IH" [OF True d [symmetric] refl] .
    then show ?thesis using True d by (simp add: dayLoop.simps [of w i])
  next
    case False
    then show ?thesis by (simp add: dayLoop.simps [of w i])
  qed
qed

lemma dayLoop_prefix: "take (length days) (fst (dayLoop w i days s)) = days"
proof (induction w i days s rule: dayLoop.induct)
  case (1 w i days s)
  show ?case
  proof (cases "i < 5000")
    case True
    obtain d s' where d: "newDay w s = (d, s')" by (cases "newDay w s")
    have "take (length (days @ [d])) (fst (dayLoop w (i + 1) (days @ [d]) s')) = days @ [d]"
      using "1.IH" [OF True d [symmetric] refl] .
    then have "take (length days) (take (length (days @ [d])) (fst (dayLoop w (i + 1) (days @ [d]) s')))
      = take (length days) (days @ [d])" by simp
    then have "take (length days) (fst (dayLoop w (i + 1) (days @ [d]) s')) = days"
      by (simp add: min_def)
    then show ?thesis using True d by (simp add: dayLoop.simps [of w i])
  next
    case False
    then show ?thesis by (simp add: dayLoop.simps [of w i])
  qed
qed

lemma dayLoop_first:
  assumes "i < 5000"
  shows "fst (dayLoop w i days s) ! length days = fst (newDay w s)"
proof -
  obtain d s' where d: "newDay w s = (d, s')" by (cases "newDay w s")
  have e: "dayLoop w i days s = dayLoop w (i + 1) (days @ [d]) s'"
    using assms d by (simp add: dayLoop.simps [of w i])
  have "take (length (days @ [d])) (fst (dayLoop w (i + 1) (days @ [d]) s')) = days @ [d]"
    by (rule dayLoop_prefix)
  then have "take (length (days @ [d])) (fst (dayLoop w (i + 1) (days @ [d]) s')) ! length days
    = (days @ [d]) ! length days" by simp
  then have "fst (dayLoop w (i + 1) (days @ [d]) s') ! length days = d" by simp
  then show ?thesis by (simp add: e d)
qed

lemma dayLoop_all:
  assumes "\<And>s. P (fst (newDay w s))" and "\<And>x. x \<in> set days \<Longrightarrow> P x"
    and "d \<in> set (fst (dayLoop w i days s))"
  shows "P d"
  using assms
proof (induction w i days s rule: dayLoop.induct)
  case (1 w i days s)
  show ?case
  proof (cases "i < 5000")
    case True
    obtain d' s' where d: "newDay w s = (d', s')" by (cases "newDay w s")
    have p: "P d'" using "1.prems"(1) [of s] by (simp add: d)
    have m: "d \<in> set (fst (dayLoop w (i + 1) (days @ [d']) s'))"
      using "1.prems"(3) True d by (simp add: dayLoop.simps [of w i])
    have a: "P x" if "x \<in> set (days @ [d'])" for x
      using that p "1.prems"(2) by auto
    show ?thesis
      using "1.IH" [OF True d [symmetric] refl "1.prems"(1) a m] .
  next
    case False
    then have "d \<in> set days" using "1.prems"(3) by (simp add: dayLoop.simps [of w i])
    then show ?thesis by (rule "1.prems"(2))
  qed
qed

lemma timeSeriesData_first: "timeSeriesData w ! 0 = fst (newDay w start)"
  using dayLoop_first [of 0 w "[]" start] by (simp add: timeSeriesData_def)

lemma timeSeriesData_all:
  assumes "\<And>s. P (fst (newDay w s))" and "d \<in> set (timeSeriesData w)"
  shows "P d"
  using dayLoop_all [of P w "[]" d 0 start] assms by (simp add: timeSeriesData_def)

lemma eventLoop_prefix: "take (length evs) (fst (eventLoop w j evs s)) = evs"
proof (induction w j evs s rule: eventLoop.induct)
  case (1 w j events s)
  obtain bound s1 where b: "randomIntFromInterval w 1 6 s = (bound, s1)"
    by (cases "randomIntFromInterval w 1 6 s")
  obtain e s2 where e: "newEvent w s1 = (e, s2)" by (cases "newEvent w s1")
  show ?case
  proof (cases "int j < bound")
    case True
    have "take (length (events @ [e])) (fst (eventLoop w (j + 1) (events @ [e]) s2)) = events @ [e]"
      using "1.IH" [OF refl b [symmetric] True refl e [symmetric]] .
    then have "take (length events) (take (length (events @ [e]))
        (fst (eventLoop w (j + 1) (events @ [e]) s2))) = take (length events) (events @ [e])"
      by simp
    then have "take (length events) (fst (eventLoop w (j + 1) (events @ [e]) s2)) = events"
      by (simp add: min_def)
    then show ?thesis using True b e by (simp add: eventLoop.simps [of w j])
  next
    case False
    then show ?thesis using b by (simp add: eventLoop.simps [of w j])
  qed
qed

lemma eventLoop_length_le: "length (fst (eventLoop w j evs s)) \<le> length evs + (6 - j)"
proof (induction w j evs s rule: eventLoop.induct)
  case (1 w j events s)
  obtain bound s1 where b: "randomIntFromInterval w 1 6 s = (bound, s1)"
    by (cases "randomIntFromInterval w 1 6 s")
  obtain e s2 where e: "newEvent w s1 = (e, s2)" by (cases "newEvent w s1")
  show ?case
  proof (cases "int j < bound")
    case True
    have "bound \<le> 6" using randomIntFromInterval_1_6(2) [of w s] b by simp
    with True have j: "j < 6" by simp
    have "length (fst (eventLoop w (j + 1) (events @ [e]) s2))
        \<le> length (events @ [e]) + (6 - (j + 1))"
      using "1.IH" [OF refl b [symmetric] True refl e [symmetric]] .
    then show ?thesis using True b e j by (simp add: eventLoop.simps [of w j])
  next
    case False
    then show ?thesis using b by (simp add: eventLoop.simps [of w j])
  qed
qed

lemma eventLoop_length_ge: "length evs \<le> length (fst (eventLoop w j evs s))"
proof -
  have "length (take (length evs) (fst (eventLoop w j evs s))) = length evs"
    by (simp only: eventLoop_prefix)
  then show ?thesis by simp
qed

lemma eventLoop_first_pass: "Suc (length evs) \<le> length (fst (eventLoop w 0 evs s))"
proof -
  obtain bound s1 where b: "randomIntFromInterval w 1 6 s = (bound, s1)"
    by (cases "randomIntFromInterval w 1 6 s")
  obtain e s2 where e: "newEvent w s1 = (e, s2)" by (cases "newEvent w s1")
  have "1 \<le> bound" using randomIntFromInterval_1_6(1) [of w s] b by simp
  then have "eventLoop w 0 evs s = eventLoop w 1 (evs @ [e]) s2"
    using b e by (simp add: eventLoop.simps [of w 0])
  then show ?thesis using eventLoop_length_ge [of "evs @ [e]" w 1 s2] by simp
qed

lemma eventLoop_all:
  assumes "\<And>s. P (fst (newEvent w s))" and "\<And>x. x \<in> set evs \<Longrightarrow> P x"
    and "d \<in> set (fst (eventLoop w j evs s))"
  shows "P d"
  using assms
proof (induction w j evs s rule: eventLoop.induct)
  case (1 w j events s)
  obtain bound s1 where b: "randomIntFromInterval w 1 6 s = (bound, s1)"
    by (cases "randomIntFromInterval w 1 6 s")
  obtain e s2 where e: "newEvent w s1 = (e, s2)" by (cases "newEvent w s1")
  show ?case
  proof (cases "int j < bound")
    case True
    have p: "P e" using "1.prems"(1) [of s1] by (simp add: e)
    have m: "d \<in> set (fst (eventLoop w (j + 1) (events @ [e]) s2))"
      using "1.prems"(3) True b e by (simp add: eventLoop.simps [of w j])
    have a: "P x" if "x \<in> set (events @ [e])" for x
      using that p "1.prems"(2) by auto
    show ?thesis
      using "1.IH" [OF refl b [symmetric] True refl e [symmetric] "1.prems"(1) a m] .
  next
    case False
    then have "d \<in> set events"
      using "1.prems"(3) b by (simp add: eventLoop.simps [of w j])
    then show ?thesis by (rule "1.prems"(2))
  qed
qed

text \<open>
  What holds of every generated day: between one and six events, each with the two
  fields of line 48 to 51 and a weight between 14 and 17.
\<close>

definition weightOf :: "jsval \<Rightarrow> int option" where
  "weightOf e = (case field ''weight'' e of Some (JNum n) \<Rightarrow> Some n | _ \<Rightarrow> None)"

lemma eventsOf_newDay: "eventsOf (fst (newDay w s)) = fst (eventLoop w 0 [] (s\<lparr>fakes := fakes s + 5\<rparr>))"
  by (simp add: newDay_def eventsOf_def field_def Let_def split: prod.split)

lemma newDay_events_count:
  "1 \<le> length (eventsOf (fst (newDay w s)))" "length (eventsOf (fst (newDay w s))) \<le> 6"
  using eventLoop_first_pass [of "[]" w "s\<lparr>fakes := fakes s + 5\<rparr>"]
    eventLoop_length_le [of w 0 "[]" "s\<lparr>fakes := fakes s + 5\<rparr>"]
  by (simp_all add: eventsOf_newDay)

lemma newEvent_weight:
  "\<exists>n. weightOf (fst (newEvent w s)) = Some n \<and> 14 \<le> n \<and> n \<le> 17"
proof -
  obtain n s2 where r: "randomIntFromInterval w 14 16 (s\<lparr>fakes := fakes s + 1\<rparr>) = (n, s2)"
    by (cases "randomIntFromInterval w 14 16 (s\<lparr>fakes := fakes s + 1\<rparr>)")
  have "14 \<le> n \<and> n \<le> 17"
    using randomIntFromInterval_14_16 [of w "s\<lparr>fakes := fakes s + 1\<rparr>"] r by simp
  moreover have "weightOf (fst (newEvent w s)) = Some n"
    using r by (simp add: newEvent_def weightOf_def field_def Let_def)
  ultimately show ?thesis by simp
qed

lemma newDay_weights:
  assumes "e \<in> set (eventsOf (fst (newDay w s)))"
  shows "\<exists>n. weightOf e = Some n \<and> 14 \<le> n \<and> n \<le> 17"
proof (rule eventLoop_all [where P = "\<lambda>e. \<exists>n. weightOf e = Some n \<and> 14 \<le> n \<and> n \<le> 17"])
  show "\<exists>n. weightOf (fst (newEvent w t)) = Some n \<and> 14 \<le> n \<and> n \<le> 17" for t
    by (rule newEvent_weight)
  show "e \<in> set (fst (eventLoop w 0 [] (s\<lparr>fakes := fakes s + 5\<rparr>)))"
    using assms by (simp add: eventsOf_newDay)
qed simp

lemma timeSeriesData_length: "length (timeSeriesData w) = 5000"
  by (simp add: timeSeriesData_def dayLoop_length)

lemma fieldNames_newDay:
  "fieldNames (fst (newDay w s)) = [''timestamp_day'', ''cat'', ''owner'', ''events'']"
  by (simp add: newDay_def fieldNames_def Let_def split: prod.split)

lemma owner_newDay:
  "\<exists>owner. field ''owner'' (fst (newDay w s)) = Some owner
     \<and> fieldNames owner = [''email'', ''firstName'', ''lastName'']"
  by (simp add: newDay_def field_def fieldNames_def Let_def split: prod.split)

lemma calls_seedDB:
  "calls (seedDB w) =
     (case new_MongoClient w of
        Some err \<Rightarrow> []
      | None \<Rightarrow>
          (case client_connect w of
             None \<Rightarrow> [Connect, InsertMany (timeSeriesData w), Close]
           | Some err \<Rightarrow> [Connect, Close]))"
  by (simp add: seedDB_def finallyBlock_def catchBlock_def tryBlock_def
      split: option.split)

lemma built_seedDB:
  "built (seedDB w) =
     (case new_MongoClient w of
        Some err \<Rightarrow> None
      | None \<Rightarrow>
          (case client_connect w of
             None \<Rightarrow> Some (timeSeriesData w)
           | Some err \<Rightarrow> None))"
  by (simp add: seedDB_def finallyBlock_def catchBlock_def tryBlock_def
      split: option.split)

lemma thrown_seedDB:
  "thrown (seedDB w) =
     (case new_MongoClient w of Some err \<Rightarrow> Some err | None \<Rightarrow> client_close w)"
  by (simp add: seedDB_def finallyBlock_def catchBlock_def tryBlock_def
      split: option.split)

lemma console_seedDB:
  "new_MongoClient w = None \<Longrightarrow> thrown (tryBlock w) = Some e
     \<Longrightarrow> stack e \<in> set (console (seedDB w))"
  by (auto simp add: seedDB_def finallyBlock_def catchBlock_def tryBlock_def
      split: option.splits)

lemma thrown_tryBlock:
  "thrown (tryBlock w) =
     (case client_connect w of
        Some err \<Rightarrow> Some err
      | None \<Rightarrow> collection_insertMany w (timeSeriesData w))"
  by (simp add: tryBlock_def split: option.split)

section \<open>Concrete runs\<close>

definition zero :: unit_double where
  "zero = Abs_unit_double 0"

definition seven_eighths :: unit_double where
  "seven_eighths = Abs_unit_double (7 / 8)"

text \<open>The Number \<^verbatim>\<open>0.9999999999999998\<close>, which is \<open>1 - 2^-52\<close>.\<close>

definition below_one :: unit_double where
  "below_one = Abs_unit_double (1 - 1 / 2 ^ 52)"

definition world0 :: world where
  "world0 =
     \<lparr>Math_random = (\<lambda>k. zero),
      faker_person_firstName = (\<lambda>k. ''Ada''),
      faker_person_lastName = (\<lambda>k. ''Lovelace''),
      faker_date_past = (\<lambda>k. 0),
      faker_lorem_word = (\<lambda>k. ''lorem''),
      faker_internet_email = (\<lambda>k firstName lastName. firstName @ ''.'' @ lastName @ ''@example.com''),
      new_MongoClient = None,
      client_connect = None,
      collection_insertMany = (\<lambda>docs. None),
      client_close = None\<rparr>"

definition world17 :: world where
  "world17 = world0\<lparr>Math_random := (\<lambda>k. if k = 1 then below_one else zero)\<rparr>"

definition world_one :: world where
  "world_one = world0\<lparr>Math_random := (\<lambda>k. if k = 0 then seven_eighths else zero)\<rparr>"

definition world_six :: world where
  "world_six = world0\<lparr>Math_random := (\<lambda>k. seven_eighths)\<rparr>"

text \<open>
  A run with \<^verbatim>\<open>COSMOS_CONN_STRING\<close> unset: \<^verbatim>\<open>uri\<close> is \<^verbatim>\<open>undefined\<close> and the
  constructor throws.
\<close>

definition world_unset :: world where
  "world_unset = world0\<lparr>new_MongoClient := Some (Error ''invalid connection string'')\<rparr>"

definition world_refused :: world where
  "world_refused = world0\<lparr>client_connect := Some (Error ''connect ECONNREFUSED'')\<rparr>"

definition world_down :: world where
  "world_down = world_refused\<lparr>client_close := Some (Error ''close failed'')\<rparr>"

lemma number_of_zero: "number_of zero = 0"
  by (simp add: zero_def Abs_unit_double_inverse fl_0)

lemma number_of_seven_eighths: "number_of seven_eighths = 7 / 8"
proof -
  have "(0::rat) \<le> 7 / 8 \<and> (7 / 8 :: rat) < 1 \<and> fl (7 / 8) = 7 / 8" by code_simp
  then have "(7 / 8 :: rat) \<in> {r. 0 \<le> r \<and> r < 1 \<and> fl r = r}" by (rule CollectI)
  then show ?thesis unfolding seven_eighths_def by (rule Abs_unit_double_inverse)
qed

lemma number_of_below_one: "number_of below_one = 1 - 1 / 2 ^ 52"
proof -
  have "(0::rat) \<le> 1 - 1 / 2 ^ 52 \<and> (1 - 1 / 2 ^ 52 :: rat) < 1
      \<and> fl (1 - 1 / 2 ^ 52) = 1 - 1 / 2 ^ 52" by code_simp
  then have "(1 - 1 / 2 ^ 52 :: rat) \<in> {r. 0 \<le> r \<and> r < 1 \<and> fl r = r}" by (rule CollectI)
  then show ?thesis unfolding below_one_def by (rule Abs_unit_double_inverse)
qed

lemma draw_zero_1_6: "floorScaled 1 6 (number_of zero) = 1"
proof -
  have "floorScaled 1 6 0 = 1" by code_simp
  then show ?thesis by (simp only: number_of_zero)
qed

lemma draw_zero_14_16: "floorScaled 14 16 (number_of zero) = 14"
proof -
  have "floorScaled 14 16 0 = 14" by code_simp
  then show ?thesis by (simp only: number_of_zero)
qed

lemma draw_seven_eighths_1_6: "floorScaled 1 6 (number_of seven_eighths) = 6"
proof -
  have "floorScaled 1 6 (7 / 8) = 6" by code_simp
  then show ?thesis by (simp only: number_of_seven_eighths)
qed

lemma draw_seven_eighths_14_16: "floorScaled 14 16 (number_of seven_eighths) = 16"
proof -
  have "floorScaled 14 16 (7 / 8) = 16" by code_simp
  then show ?thesis by (simp only: number_of_seven_eighths)
qed

lemma draw_below_one_14_16: "floorScaled 14 16 (number_of below_one) = 17"
proof -
  have "floorScaled 14 16 (1 - 1 / 2 ^ 52) = 17" by code_simp
  then show ?thesis by (simp only: number_of_below_one)
qed

lemma events_world17:
  "eventsOf (fst (newDay world17 start)) =
     [JObj [(''timestamp_event'', JDate 0), (''weight'', JNum 17)]]"
  by (simp add: eventsOf_newDay start_def world17_def world0_def
      eventLoop.simps [of _ 0] eventLoop.simps [of _ "Suc 0"]
      randomIntFromInterval_def newEvent_def
      draw_zero_1_6 draw_below_one_14_16)

lemma events_world_one:
  "eventsOf (fst (newDay world_one start)) =
     [JObj [(''timestamp_event'', JDate 0), (''weight'', JNum 14)]]"
  by (simp add: eventsOf_newDay start_def world_one_def world0_def
      eventLoop.simps [of _ 0] eventLoop.simps [of _ "Suc 0"]
      randomIntFromInterval_def newEvent_def
      draw_zero_1_6 draw_zero_14_16 draw_seven_eighths_1_6)

lemma events_world_six:
  "length (eventsOf (fst (newDay world_six start))) = 6"
  by (simp add: eventsOf_newDay start_def world_six_def world0_def
      eventLoop.simps [of _ 0] eventLoop.simps [of _ "Suc 0"]
      eventLoop.simps [of _ "Suc (Suc 0)"] eventLoop.simps [of _ "Suc (Suc (Suc 0))"]
      eventLoop.simps [of _ "Suc (Suc (Suc (Suc 0)))"]
      eventLoop.simps [of _ "Suc (Suc (Suc (Suc (Suc 0))))"]
      eventLoop.simps [of _ "Suc (Suc (Suc (Suc (Suc (Suc 0)))))"]
      randomIntFromInterval_def newEvent_def
      draw_seven_eighths_1_6 draw_seven_eighths_14_16)

section \<open>The synthetic data generator\<close>

text \<open>
  C1, as the code has it. \<^verbatim>\<open>seedDB\<close> declares no parameter and its outer loop runs
  to the literal 5000. The loop (lines 33 to 55) builds exactly 5000 documents,
  whatever the random sources return. A run in which the constructor returns and
  \<^verbatim>\<open>connect\<close> resolves reaches the loop and leaves that array of 5000 documents; a
  run in which the constructor throws or \<^verbatim>\<open>connect\<close> rejects never reaches the loop
  and builds nothing. A caller cannot ask for another number of documents.
\<close>

theorem C1_five_thousand_days:
  "length (timeSeriesData w) = 5000
   \<and> (new_MongoClient w = None \<and> client_connect w = None
        \<longrightarrow> built (seedDB w) = Some (timeSeriesData w))
   \<and> (new_MongoClient w \<noteq> None \<or> client_connect w \<noteq> None
        \<longrightarrow> built (seedDB w) = None)"
  by (auto simp add: timeSeriesData_length built_seedDB split: option.splits)

theorem C1_five_thousand_days_witness:
  "new_MongoClient world0 = None \<and> client_connect world0 = None
   \<and> built (seedDB world0) = Some (timeSeriesData world0)
   \<and> length (timeSeriesData world0) = 5000
   \<and> client_connect world_refused = Some (Error ''connect ECONNREFUSED'')
   \<and> built (seedDB world_refused) = None"
proof -
  have a: "new_MongoClient world0 = None \<and> client_connect world0 = None"
    by (simp add: world0_def)
  have b: "client_connect world_refused = Some (Error ''connect ECONNREFUSED'')"
    by (simp add: world_refused_def)
  show ?thesis
    using a b C1_five_thousand_days [of world0] C1_five_thousand_days [of world_refused]
    by simp
qed

text \<open>
  C1 as stated fails: a run that is expected to produce 3 documents produces 5000.
\<close>

theorem C1_count_counterexample: "length (timeSeriesData world0) \<noteq> 3"
  by (simp add: timeSeriesData_length)

text \<open>
  C2 at a run in which the second call of \<^verbatim>\<open>Math.random()\<close> returns
  \<^verbatim>\<open>0.9999999999999998\<close> and every other call returns 0. The first document has
  one event, and its weight is 17: the product \<open>3 * (1 - 2^-52)\<close> rounds to
  \<open>3 - 2^-50\<close>, the sum \<open>17 - 2^-50\<close> rounds to 17, and \<^verbatim>\<open>Math.floor\<close> leaves 17.
\<close>

theorem C2_weight_17:
  "eventsOf (timeSeriesData world17 ! 0) =
     [JObj [(''timestamp_event'', JDate 0), (''weight'', JNum 17)]]"
  by (simp only: timeSeriesData_first events_world17)

text \<open>
  C3 at two runs whose first call of \<^verbatim>\<open>Math.random()\<close> returns the same Number,
  0.875, for which \<^verbatim>\<open>randomIntFromInterval(1, 6)\<close> is 6. The loop condition draws
  again before every pass: where the later calls return 0 the first day gets one
  event, where they return 0.875 it gets six.
\<close>

theorem C3_count_from_several_draws:
  "Math_random world_one 0 = Math_random world_six 0
   \<and> fst (randomIntFromInterval world_one 1 6 (start\<lparr>fakes := 5\<rparr>)) = 6
   \<and> length (eventsOf (timeSeriesData world_one ! 0)) = 1
   \<and> length (eventsOf (timeSeriesData world_six ! 0)) = 6"
proof -
  have "Math_random world_one 0 = Math_random world_six 0"
    by (simp add: world_one_def world_six_def)
  moreover have "fst (randomIntFromInterval world_one 1 6 (start\<lparr>fakes := 5\<rparr>)) = 6"
    by (simp add: randomIntFromInterval_def start_def world_one_def draw_seven_eighths_1_6)
  moreover have "length (eventsOf (timeSeriesData world_one ! 0)) = 1"
    by (simp only: timeSeriesData_first events_world_one) simp
  moreover have "length (eventsOf (timeSeriesData world_six ! 0)) = 6"
    by (simp only: timeSeriesData_first events_world_six)
  ultimately show ?thesis by simp
qed

text \<open>
  C4, as the code has it. Every generated document has the fields
  \<^verbatim>\<open>timestamp_day\<close>, \<^verbatim>\<open>cat\<close>, \<^verbatim>\<open>owner\<close> and \<^verbatim>\<open>events\<close>, in this order, and its
  owner has the fields \<^verbatim>\<open>email\<close>, \<^verbatim>\<open>firstName\<close> and \<^verbatim>\<open>lastName\<close>. The string
  field is named \<^verbatim>\<open>cat\<close>.
\<close>

theorem C4_field_names:
  assumes "d \<in> set (timeSeriesData w)"
  shows "fieldNames d = [''timestamp_day'', ''cat'', ''owner'', ''events'']
    \<and> (\<exists>owner. field ''owner'' d = Some owner
          \<and> fieldNames owner = [''email'', ''firstName'', ''lastName''])"
proof (rule timeSeriesData_all [OF _ assms])
  fix s
  show "fieldNames (fst (newDay w s)) = [''timestamp_day'', ''cat'', ''owner'', ''events'']
    \<and> (\<exists>owner. field ''owner'' (fst (newDay w s)) = Some owner
          \<and> fieldNames owner = [''email'', ''firstName'', ''lastName''])"
    using fieldNames_newDay [of w s] owner_newDay [of w s] by simp
qed

theorem C4_field_names_witness:
  "timeSeriesData world0 ! 0 \<in> set (timeSeriesData world0)
   \<and> fieldNames (timeSeriesData world0 ! 0) = [''timestamp_day'', ''cat'', ''owner'', ''events'']
   \<and> (\<exists>owner. field ''owner'' (timeSeriesData world0 ! 0) = Some owner
          \<and> fieldNames owner = [''email'', ''firstName'', ''lastName''])"
proof -
  have m: "timeSeriesData world0 ! 0 \<in> set (timeSeriesData world0)"
    by (rule nth_mem) (simp add: timeSeriesData_length)
  show ?thesis using m C4_field_names [OF m] by simp
qed

text \<open>C4 as stated fails: the first document of a run has no field \<^verbatim>\<open>category\<close>.\<close>

theorem C4_category_counterexample:
  "field ''category'' (timeSeriesData world0 ! 0) = None
   \<and> field ''cat'' (timeSeriesData world0 ! 0) = Some (JStr ''lorem'')"
  by (simp add: timeSeriesData_first newDay_def field_def Let_def world0_def split: prod.split)

text \<open>
  C5, as the code has it. Once the constructor of line 22 has returned the client,
  whatever \<^verbatim>\<open>connect\<close> and \<^verbatim>\<open>insertMany\<close> do, the last call that \<^verbatim>\<open>seedDB\<close> makes
  on the client is \<^verbatim>\<open>close\<close>, and it makes that call once.
\<close>

theorem C5_close_on_every_path:
  assumes "new_MongoClient w = None"
  shows "\<exists>before. calls (seedDB w) = before @ [Close] \<and> Close \<notin> set before"
  using assms by (cases "client_connect w") (simp_all add: calls_seedDB)

theorem C5_close_on_every_path_witness:
  "new_MongoClient world_refused = None
   \<and> calls (seedDB world_refused) = [Connect, Close]
   \<and> (\<exists>before. calls (seedDB world_refused) = before @ [Close] \<and> Close \<notin> set before)"
proof -
  have c: "new_MongoClient world_refused = None" by (simp add: world_refused_def world0_def)
  have d: "calls (seedDB world_refused) = [Connect, Close]"
    by (simp add: calls_seedDB world_refused_def world0_def)
  show ?thesis using c d C5_close_on_every_path [OF c] by simp
qed

text \<open>
  C5 as stated fails on one exit path: when the constructor throws, \<^verbatim>\<open>seedDB\<close> is
  left with that error and has made no call of \<^verbatim>\<open>close\<close>.
\<close>

theorem C5_constructor_throws_counterexample:
  "calls (seedDB world_unset) = []
   \<and> thrown (seedDB world_unset) = Some (Error ''invalid connection string'')"
  by (simp add: seedDB_def world_unset_def)

text \<open>
  C6. When \<^verbatim>\<open>connect\<close> resolves, the calls on the store are \<^verbatim>\<open>connect\<close>, one
  \<^verbatim>\<open>insertMany\<close> whose argument is the whole array of 5000 documents, and \<^verbatim>\<open>close\<close>:
  nothing is written while the documents are built. When \<^verbatim>\<open>connect\<close> rejects,
  nothing is built and nothing is inserted; when the constructor throws, no call is
  made at all.
\<close>

theorem C6_one_bulk_insert:
  "(new_MongoClient w = None \<and> client_connect w = None \<longrightarrow>
      calls (seedDB w) = [Connect, InsertMany (timeSeriesData w), Close]
      \<and> length (timeSeriesData w) = 5000)
   \<and> (new_MongoClient w = None \<and> client_connect w \<noteq> None \<longrightarrow>
      calls (seedDB w) = [Connect, Close])
   \<and> (new_MongoClient w \<noteq> None \<longrightarrow> calls (seedDB w) = [])"
  by (auto simp add: calls_seedDB timeSeriesData_length split: option.splits)

theorem C6_one_bulk_insert_witness:
  "new_MongoClient world0 = None \<and> client_connect world0 = None
   \<and> calls (seedDB world0) = [Connect, InsertMany (timeSeriesData world0), Close]
   \<and> length (timeSeriesData world0) = 5000"
proof -
  have c: "new_MongoClient world0 = None \<and> client_connect world0 = None"
    by (simp add: world0_def)
  show ?thesis using c C6_one_bulk_insert [of world0] by simp
qed

text \<open>
  C10, as the code has it. An error leaves \<^verbatim>\<open>seedDB\<close> in two cases only: the
  constructor of line 22 throws, or the call of \<^verbatim>\<open>close\<close> in the \<^verbatim>\<open>finally\<close> block
  rejects. Once the constructor has returned, an error of \<^verbatim>\<open>connect\<close> or of
  \<^verbatim>\<open>insertMany\<close> is caught, its stack is written to the console, and \<^verbatim>\<open>close\<close> is
  the last call; so when \<^verbatim>\<open>close\<close> resolves as well, \<^verbatim>\<open>seedDB\<close> returns normally.
\<close>

theorem C10_errors_caught:
  "thrown (seedDB w)
      = (case new_MongoClient w of Some err \<Rightarrow> Some err | None \<Rightarrow> client_close w)
   \<and> (new_MongoClient w = None \<longrightarrow>
        last (calls (seedDB w)) = Close
        \<and> (\<forall>e. client_connect w = Some e \<longrightarrow> stack e \<in> set (console (seedDB w)))
        \<and> (\<forall>e. client_connect w = None \<and> collection_insertMany w (timeSeriesData w) = Some e
              \<longrightarrow> stack e \<in> set (console (seedDB w))))"
proof -
  have "last (calls (seedDB w)) = Close" if "new_MongoClient w = None"
    using that by (cases "client_connect w") (simp_all add: calls_seedDB)
  moreover have "stack e \<in> set (console (seedDB w))"
    if "new_MongoClient w = None" and "client_connect w = Some e" for e
    using that by (intro console_seedDB) (simp_all add: thrown_tryBlock)
  moreover have "stack e \<in> set (console (seedDB w))"
    if "new_MongoClient w = None"
      and "client_connect w = None \<and> collection_insertMany w (timeSeriesData w) = Some e" for e
    using that by (intro console_seedDB) (simp_all add: thrown_tryBlock)
  ultimately show ?thesis by (simp add: thrown_seedDB)
qed

theorem C10_errors_caught_witness:
  "new_MongoClient world_refused = None
   \<and> client_close world_refused = None
   \<and> client_connect world_refused = Some (Error ''connect ECONNREFUSED'')
   \<and> thrown (seedDB world_refused) = None
   \<and> last (calls (seedDB world_refused)) = Close
   \<and> ''connect ECONNREFUSED'' \<in> set (console (seedDB world_refused))"
proof -
  have c: "new_MongoClient world_refused = None \<and> client_close world_refused = None"
    by (simp add: world_refused_def world0_def)
  have e: "client_connect world_refused = Some (Error ''connect ECONNREFUSED'')"
    by (simp add: world_refused_def)
  show ?thesis using c e C10_errors_caught [of world_refused] by simp
qed

text \<open>
  C10 as stated fails: \<^verbatim>\<open>connect\<close> rejects, the error is caught and logged, the
  call of \<^verbatim>\<open>close\<close> in the \<^verbatim>\<open>finally\<close> block rejects as well, and that error leaves
  \<^verbatim>\<open>seedDB\<close>.
\<close>

theorem C10_close_rejects_counterexample:
  "thrown (seedDB world_down) = Some (Error ''close failed'')
   \<and> console (seedDB world_down) = [''connect ECONNREFUSED'']"
  by (simp add: seedDB_def finallyBlock_def catchBlock_def tryBlock_def
      world_down_def world_refused_def world0_def)

section \<open>The batch loader\<close>

text \<open>
  Modelled from the spec: the batch loader \<^verbatim>\<open>load\<close> of section 4.5, whose code is not
  among the sources. The state of one run: the buffer, the batches handed to the
  bulk-upsert endpoint so far (in order), and the three counters of the summary.
\<close>

record 'd loader =
  buffer :: "'d list"
  pushes :: "'d list list"
  pushed :: nat
  skipped :: nat
  failedBatches :: nat

text \<open>
  Modelled from the spec: "push the buffer as one unit to the index's bulk-upsert
  endpoint, then clear the buffer"; a push that fails is counted in \<open>failedBatches\<close>
  and the run goes on. \<open>push\<close> tells whether the endpoint acknowledges a batch.
\<close>

definition push_buffer :: "('d list \<Rightarrow> bool) \<Rightarrow> 'd loader \<Rightarrow> 'd loader" where
  "push_buffer push st =
     (if push (buffer st)
      then st\<lparr>pushes := pushes st @ [buffer st],
              pushed := pushed st + length (buffer st),
              buffer := []\<rparr>
      else st\<lparr>pushes := pushes st @ [buffer st],
              failedBatches := failedBatches st + 1,
              buffer := []\<rparr>)"

text \<open>
  Modelled from the spec: "consume the input sequence, accumulating IndexDocuments
  into a buffer; when the buffer reaches batchSize (or the input is exhausted with a
  non-empty buffer), push the buffer".
\<close>

fun consume :: "('d list \<Rightarrow> bool) \<Rightarrow> nat \<Rightarrow> 'd list \<Rightarrow> 'd loader \<Rightarrow> 'd loader" where
  "consume push batchSize [] st = (if buffer st \<noteq> [] then push_buffer push st else st)"
| "consume push batchSize (d # ds) st =
     (let st1 = st\<lparr>buffer := buffer st @ [d]\<rparr> in
      consume push batchSize ds
        (if batchSize \<le> length (buffer st1) then push_buffer push st1 else st1))"

text \<open>
  Modelled from the spec: \<^verbatim>\<open>load(documents, batchSize)\<close>, started on an empty buffer.
\<close>

definition load :: "('d list \<Rightarrow> bool) \<Rightarrow> 'd list \<Rightarrow> nat \<Rightarrow> 'd loader" where
  "load push documents batchSize =
     consume push batchSize documents
       \<lparr>buffer = [], pushes = [], pushed = 0, skipped = 0, failedBatches = 0\<rparr>"

text \<open>
  The list cut into pieces of \<open>B\<close> elements, the last piece holding what is left:
  a device of the proof, to say what the pushes of \<open>load\<close> are.
\<close>

function chunks :: "nat \<Rightarrow> 'd list \<Rightarrow> 'd list list" where
  "chunks B xs = (if B = 0 \<or> xs = [] then [] else take B xs # chunks B (drop B xs))"
  by pat_completeness auto
termination
  by (relation "measure (\<lambda>(B, xs). length xs)") auto

declare chunks.simps [simp del]

lemma pushes_push_buffer: "pushes (push_buffer push st) = pushes st @ [buffer st]"
  by (simp add: push_buffer_def)

lemma buffer_push_buffer: "buffer (push_buffer push st) = []"
  by (simp add: push_buffer_def)

lemma chunks_Nil: "chunks B [] = []"
  by (simp add: chunks.simps [of B "[]"])

lemma chunks_short: "0 < B \<Longrightarrow> xs \<noteq> [] \<Longrightarrow> length xs \<le> B \<Longrightarrow> chunks B xs = [xs]"
  by (simp add: chunks.simps [of B xs] chunks.simps [of B "[]"])

lemma chunks_full:
  assumes "0 < B" and "length b = B"
  shows "chunks B (b @ ds) = b # chunks B ds"
proof -
  have "b \<noteq> []" using assms by auto
  then have "chunks B (b @ ds) = take B (b @ ds) # chunks B (drop B (b @ ds))"
    using assms(1) by (simp add: chunks.simps [of B "b @ ds"])
  then show ?thesis using assms(2) by simp
qed

lemma pushes_consume:
  assumes "0 < B" and "length (buffer st) < B"
  shows "pushes (consume push B ds st) = pushes st @ chunks B (buffer st @ ds)"
  using assms(2)
proof (induction ds arbitrary: st)
  case Nil
  show ?case
  proof (cases "buffer st = []")
    case True
    then show ?thesis by (simp add: chunks.simps [of B "[]"])
  next
    case False
    then show ?thesis using Nil assms(1) by (simp add: pushes_push_buffer chunks_short)
  qed
next
  case (Cons d ds)
  let ?st1 = "st\<lparr>buffer := buffer st @ [d]\<rparr>"
  show ?case
  proof (cases "B \<le> length (buffer ?st1)")
    case True
    then have len: "length (buffer st @ [d]) = B" using Cons.prems by simp
    have "pushes (consume push B ds (push_buffer push ?st1))
        = pushes (push_buffer push ?st1) @ chunks B (buffer (push_buffer push ?st1) @ ds)"
      using assms(1) by (intro Cons.IH) (simp add: buffer_push_buffer)
    also have "\<dots> = pushes st @ [buffer st @ [d]] @ chunks B ds"
      by (simp add: pushes_push_buffer buffer_push_buffer)
    also have "\<dots> = pushes st @ chunks B ((buffer st @ [d]) @ ds)"
      using chunks_full [OF assms(1) len, of ds] by simp
    finally show ?thesis using True by (simp add: Let_def)
  next
    case False
    then have "pushes (consume push B ds ?st1) = pushes ?st1 @ chunks B (buffer ?st1 @ ds)"
      by (intro Cons.IH) simp
    then show ?thesis using False by (simp add: Let_def)
  qed
qed

lemma pushes_load: "0 < B \<Longrightarrow> pushes (load push docs B) = chunks B docs"
  using pushes_consume [of B "\<lparr>buffer = [], pushes = [], pushed = 0, skipped = 0, failedBatches = 0\<rparr>" push docs]
  by (simp add: load_def)

lemma length_chunks: "0 < B \<Longrightarrow> length (chunks B xs) = (length xs + B - 1) div B"
proof (induction B xs rule: chunks.induct)
  case (1 B xs)
  show ?case
  proof (cases "xs = []")
    case True
    then show ?thesis using "1.prems" by (simp add: chunks_Nil)
  next
    case False
    have ih: "length (chunks B (drop B xs)) = (length (drop B xs) + B - 1) div B"
      using "1.IH" False "1.prems" by simp
    show ?thesis
    proof (cases "length xs \<le> B")
      case True
      then have "(length xs + B - 1) div B = 1" using False "1.prems"
        by (cases xs) (simp_all add: div_nat_eqI)
      then show ?thesis using True False "1.prems" by (simp add: chunks_short)
    next
      case gt: False
      define m where "m = length xs - B"
      have n: "length xs = m + B" and m: "0 < m" using gt by (simp_all add: m_def)
      have "m + B + B - 1 = (m + B - 1) + B" using "1.prems" by simp
      then have "(m + B + B - 1) div B = Suc ((m + B - 1) div B)"
        using "1.prems" by (simp only: div_add_self2)
      then show ?thesis using ih False "1.prems" n
        by (simp add: chunks.simps [of B xs])
    qed
  qed
qed

lemma chunks_nonempty: "0 < B \<Longrightarrow> xs \<noteq> [] \<Longrightarrow> chunks B xs \<noteq> []"
  by (simp add: chunks.simps [of B xs])

lemma chunks_step:
  "0 < B \<Longrightarrow> xs \<noteq> [] \<Longrightarrow> chunks B xs = take B xs # chunks B (drop B xs)"
  by (simp add: chunks.simps [of B xs])

lemma concat_chunks: "0 < B \<Longrightarrow> concat (chunks B xs) = xs"
proof (induction B xs rule: chunks.induct)
  case (1 B xs)
  show ?case
  proof (cases "xs = []")
    case True
    then show ?thesis by (simp add: chunks_Nil)
  next
    case False
    then show ?thesis using "1.IH" "1.prems" by (simp add: chunks_step)
  qed
qed

lemma chunks_inner:
  "0 < B \<Longrightarrow> Suc i < length (chunks B xs) \<Longrightarrow> length (chunks B xs ! i) = B"
proof (induction B xs arbitrary: i rule: chunks.induct)
  case (1 B xs)
  have ne: "xs \<noteq> []" using "1.prems" by (auto simp add: chunks_Nil)
  have st: "chunks B xs = take B xs # chunks B (drop B xs)"
    using "1.prems"(1) ne by (rule chunks_step)
  have rest: "chunks B (drop B xs) \<noteq> []" using "1.prems"(2) st by auto
  show ?case
  proof (cases i)
    case 0
    have "drop B xs \<noteq> []" using rest by (auto simp add: chunks_Nil)
    then have "B \<le> length xs" by simp
    then show ?thesis using 0 st by simp
  next
    case (Suc k)
    have "Suc k < length (chunks B (drop B xs))" using "1.prems"(2) st Suc by simp
    then have "length (chunks B (drop B xs) ! k) = B"
      using "1.IH" ne "1.prems"(1) by simp
    then show ?thesis using Suc st by simp
  qed
qed

lemma chunks_last:
  "0 < B \<Longrightarrow> xs \<noteq> [] \<Longrightarrow>
     length (last (chunks B xs)) = (if length xs mod B = 0 then B else length xs mod B)"
proof (induction B xs rule: chunks.induct)
  case (1 B xs)
  have st: "chunks B xs = take B xs # chunks B (drop B xs)"
    using "1.prems" by (rule chunks_step)
  show ?case
  proof (cases "length xs \<le> B")
    case True
    then have "chunks B xs = [xs]" using "1.prems" by (simp add: chunks_short)
    moreover have "length xs mod B = (if length xs = B then 0 else length xs)"
      using True by simp
    ultimately show ?thesis using "1.prems" by simp
  next
    case False
    then have d: "drop B xs \<noteq> []" by simp
    have "length (last (chunks B (drop B xs)))
        = (if length (drop B xs) mod B = 0 then B else length (drop B xs) mod B)"
      using "1.IH" "1.prems" d by simp
    moreover have "length (drop B xs) mod B = length xs mod B"
      using False by (simp add: le_mod_geq)
    moreover have "last (chunks B xs) = last (chunks B (drop B xs))"
      using st chunks_nonempty [OF "1.prems"(1) d] by simp
    ultimately show ?thesis by simp
  qed
qed

lemma ceil_div_nat:
  assumes "0 < B"
  shows "int ((N + B - 1) div B) = \<lceil>(of_nat N :: rat) / of_nat B\<rceil>"
proof -
  define q where "q = (N + B - 1) div B"
  have lo: "q * B \<le> N + B - 1" by (simp add: q_def)
  have hi: "N + B - 1 < q * B + B"
    using assms dividend_less_div_times [of B "N + B - 1"] by (simp add: q_def)
  have a: "N \<le> q * B" using hi assms by simp
  have b: "q * B < N + B" using lo assms by simp
  have "(of_nat N :: rat) \<le> of_nat (q * B)" using a by (simp only: of_nat_le_iff)
  then have le: "(of_nat N :: rat) / of_nat B \<le> of_int (int q)"
    using assms by (simp add: pos_divide_le_eq)
  have "(of_nat (q * B) :: rat) < of_nat (N + B)" using b by (simp only: of_nat_less_iff)
  then have "(of_nat q - 1) * (of_nat B :: rat) < of_nat N"
    by (simp add: algebra_simps)
  then have "(of_nat q :: rat) - 1 < of_nat N / of_nat B"
    using assms by (simp only: pos_less_divide_eq of_nat_0_less_iff)
  then have gt: "of_int (int q) - 1 < (of_nat N :: rat) / of_nat B" by simp
  have "\<lceil>(of_nat N :: rat) / of_nat B\<rceil> = int q" using gt le by (rule ceiling_unique)
  then show ?thesis by (simp add: q_def)
qed

text \<open>
  C7. For a positive batch size \<open>B\<close> and \<open>N\<close> documents, \<open>load\<close> makes
  \<open>ceil(N/B)\<close> pushes; every push but the last holds
  \<open>B\<close> documents; the last holds \<open>N mod B\<close> documents, or \<open>B\<close> when \<open>B\<close> divides
  \<open>N\<close>; and the pushes, one after the other, are the input.
\<close>

theorem C7_batching:
  assumes "0 < B"
  shows "int (length (pushes (load push docs B)))
      = \<lceil>(of_nat (length docs) :: rat) / of_nat B\<rceil>
    \<and> (\<forall>i. Suc i < length (pushes (load push docs B))
          \<longrightarrow> length (pushes (load push docs B) ! i) = B)
    \<and> (docs \<noteq> [] \<longrightarrow> length (last (pushes (load push docs B)))
          = (if length docs mod B = 0 then B else length docs mod B))
    \<and> concat (pushes (load push docs B)) = docs"
  using assms ceil_div_nat [OF assms, of "length docs"]
  by (simp add: pushes_load length_chunks chunks_inner chunks_last concat_chunks)

theorem C7_batching_witness:
  "(0::nat) < 2
   \<and> pushes (load (\<lambda>b. True) [1, 2, 3, 4, 5 :: nat] 2) = [[1, 2], [3, 4], [5]]
   \<and> \<lceil>(of_nat (length [1, 2, 3, 4, 5 :: nat]) :: rat) / of_nat 2\<rceil> = 3
   \<and> length (last (pushes (load (\<lambda>b. True) [1, 2, 3, 4, 5 :: nat] 2))) = 5 mod 2"
proof -
  have p: "pushes (load (\<lambda>b. True) [1, 2, 3, 4, 5 :: nat] 2) = [[1, 2], [3, 4], [5]]"
    by (simp add: load_def push_buffer_def)
  show ?thesis using C7_batching [of 2 "\<lambda>b. True" "[1, 2, 3, 4, 5 :: nat]"] p by simp
qed

section \<open>The index schema manager\<close>

text \<open>
  Modelled from the spec: the data model of section 3 (FieldDef, IndexSchema) and the
  search index service of section 6, whose code is not among the sources. An index
  of the service has its declared fields and its documents by key; the service holds
  its indexes by name, and \<open>available\<close> tells whether its calls succeed.
\<close>

record fieldDef =
  field_name :: string
  field_type :: string
  key :: bool
  searchable :: bool

record indexSchema =
  schema_name :: string
  schema_fields :: "fieldDef list"

record 'd index =
  index_fields :: "fieldDef list"
  documents :: "string \<rightharpoonup> 'd"

record 'd service =
  indexes :: "string \<rightharpoonup> 'd index"
  available :: bool

datatype pipeline_error = ServiceError | SchemaValidationError

text \<open>
  Modelled from the spec: the operations "get index schema by name", "delete index
  by name" and "create index from schema" of section 6; each fails with
  \<open>ServiceError\<close> when the service is not available.
\<close>

definition get_index :: "string \<Rightarrow> 'd service \<Rightarrow> pipeline_error + 'd index option" where
  "get_index n svc = (if available svc then Inr (indexes svc n) else Inl ServiceError)"

definition delete_index :: "string \<Rightarrow> 'd service \<Rightarrow> pipeline_error + 'd service" where
  "delete_index n svc =
     (if available svc then Inr (svc\<lparr>indexes := (indexes svc)(n := None)\<rparr>) else Inl ServiceError)"

definition create_index :: "indexSchema \<Rightarrow> 'd service \<Rightarrow> pipeline_error + 'd service" where
  "create_index schema svc =
     (if available svc
      then Inr (svc\<lparr>indexes := (indexes svc)(schema_name schema \<mapsto>
                 \<lparr>index_fields = schema_fields schema, documents = Map.empty\<rparr>)\<rparr>)
      else Inl ServiceError)"

text \<open>
  Modelled from the spec: "the manager validates the remote schema's field set and
  key field match the requested schema exactly (name-for-name, type-for-type) and
  fails with SchemaValidationError if not".
\<close>

definition schema_matches :: "fieldDef list \<Rightarrow> fieldDef list \<Rightarrow> bool" where
  "schema_matches remote requested =
     (set (map (\<lambda>f. (field_name f, field_type f)) remote)
        = set (map (\<lambda>f. (field_name f, field_type f)) requested)
      \<and> set (map field_name (filter key remote)) = set (map field_name (filter key requested)))"

definition validate :: "indexSchema \<Rightarrow> 'd service \<Rightarrow> pipeline_error + 'd service" where
  "validate schema svc =
     (case get_index (schema_name schema) svc of
        Inl e \<Rightarrow> Inl e
      | Inr None \<Rightarrow> Inl SchemaValidationError
      | Inr (Some ix) \<Rightarrow>
          if schema_matches (index_fields ix) (schema_fields schema) then Inr svc
          else Inl SchemaValidationError)"

text \<open>
  Modelled from the spec: \<^verbatim>\<open>ensureIndex\<close> of section 4.3, "if an index with
  schema.name exists, delete it, then create fresh with the given schema; if absent,
  create directly", followed by the validation.
\<close>

definition ensureIndex :: "indexSchema \<Rightarrow> 'd service \<Rightarrow> pipeline_error + 'd service" where
  "ensureIndex schema svc =
     (case get_index (schema_name schema) svc of
        Inl e \<Rightarrow> Inl e
      | Inr (Some ix) \<Rightarrow>
          (case delete_index (schema_name schema) svc of
             Inl e \<Rightarrow> Inl e
           | Inr svc1 \<Rightarrow>
               (case create_index schema svc1 of
                  Inl e \<Rightarrow> Inl e
                | Inr svc2 \<Rightarrow> validate schema svc2))
      | Inr None \<Rightarrow>
          (case create_index schema svc of
             Inl e \<Rightarrow> Inl e
           | Inr svc2 \<Rightarrow> validate schema svc2))"

lemma schema_matches_refl: "schema_matches fs fs"
  by (simp add: schema_matches_def)

lemma ensureIndex_result:
  "ensureIndex schema svc =
     (if available svc
      then Inr (svc\<lparr>indexes := (indexes svc)(schema_name schema \<mapsto>
                 \<lparr>index_fields = schema_fields schema, documents = Map.empty\<rparr>)\<rparr>)
      else Inl ServiceError)"
  by (cases "indexes svc (schema_name schema)")
    (simp_all add: ensureIndex_def get_index_def delete_index_def create_index_def
      validate_def schema_matches_refl)

text \<open>
  C8. Whatever the service held before, an \<^verbatim>\<open>ensureIndex\<close> that succeeds leaves
  under the name of the schema an index with the fields of the schema and no
  document; a second call with the same schema succeeds and leaves the service as
  the first call left it.
\<close>

theorem C8_recreate_idempotent:
  assumes "ensureIndex schema svc = Inr svc1"
  shows "indexes svc1 (schema_name schema)
      = Some \<lparr>index_fields = schema_fields schema, documents = Map.empty\<rparr>
    \<and> ensureIndex schema svc1 = Inr svc1"
proof -
  have a: "available svc" using assms by (auto simp add: ensureIndex_result split: if_splits)
  then have s1: "svc1 = svc\<lparr>indexes := (indexes svc)(schema_name schema \<mapsto>
      \<lparr>index_fields = schema_fields schema, documents = Map.empty\<rparr>)\<rparr>"
    using assms by (simp add: ensureIndex_result)
  then show ?thesis using a by (simp add: ensureIndex_result)
qed

definition id_schema :: indexSchema where
  "id_schema =
     \<lparr>schema_name = ''docs'',
      schema_fields = [\<lparr>field_name = ''id'', field_type = ''Edm.String'', key = True, searchable = False\<rparr>]\<rparr>"

definition stale_service :: "nat service" where
  "stale_service =
     \<lparr>indexes = [''docs'' \<mapsto> \<lparr>index_fields = [], documents = [''k'' \<mapsto> 7]\<rparr>],
      available = True\<rparr>"

definition fresh_service :: "nat service" where
  "fresh_service =
     \<lparr>indexes = [''docs'' \<mapsto> \<lparr>index_fields = schema_fields id_schema, documents = Map.empty\<rparr>],
      available = True\<rparr>"

theorem C8_recreate_idempotent_witness:
  "ensureIndex id_schema stale_service = Inr fresh_service
   \<and> indexes fresh_service (schema_name id_schema)
      = Some \<lparr>index_fields = schema_fields id_schema, documents = Map.empty\<rparr>
   \<and> ensureIndex id_schema fresh_service = Inr fresh_service"
proof -
  have e: "ensureIndex id_schema stale_service = Inr fresh_service"
    by (simp add: ensureIndex_def get_index_def delete_index_def create_index_def
        validate_def schema_matches_def stale_service_def fresh_service_def id_schema_def)
  show ?thesis using e C8_recreate_idempotent [OF e] by simp
qed

end
